theory Spec2Isabelle
  imports Complex_Main
begin

section \<open>JavaScript values\<close>

text \<open>
  The values that travel through the untyped positions of the source: the \<open>newValue\<close> of
  an \<open>IChangedArgs<any>\<close> and the entries of a command's JSON \<open>args\<close>. A key that is
  absent from an object reads as \<open>undefined\<close>.
\<close>

datatype jsval =
    JUndefined
  | JNull
  | JBool bool
  | JNum real
  | JStr string
  | JArr "jsval list"
  | JObj "(string \<times> jsval) list"

text \<open>The \<open>typeof\<close> operator.\<close>

fun typeof :: "jsval \<Rightarrow> string" where
  "typeof JUndefined = ''undefined''"
| "typeof JNull = ''object''"
| "typeof (JBool b) = ''boolean''"
| "typeof (JNum n) = ''number''"
| "typeof (JStr s) = ''string''"
| "typeof (JArr xs) = ''object''"
| "typeof (JObj kvs) = ''object''"

text \<open>Truthiness, as tested by \<open>!path\<close> and \<open>if (x)\<close>.\<close>

fun truthy :: "jsval \<Rightarrow> bool" where
  "truthy JUndefined = False"
| "truthy JNull = False"
| "truthy (JBool b) = b"
| "truthy (JNum n) = (n \<noteq> 0)"
| "truthy (JStr s) = (s \<noteq> [])"
| "truthy (JArr xs) = True"
| "truthy (JObj kvs) = True"

section \<open>The host shell's dirty indicator\<close>

type_synonym token = nat

datatype call = SetDirty token | DisposeToken token

type_synonym app = "call list"

text \<open>
  Modelled from the spec: the host shell (\<open>app: JupyterLab\<close>) is imported from
  \<open>@jupyterlab/application\<close> and is not part of this source. The spec gives its contract:
  \<open>setDirty()\<close> acquires one hold on the global dirty indicator and returns a disposable
  token; \<open>.dispose()\<close> on the token releases it. The shell is modelled as the recording
  indicator of the spec's design notes: the list of calls made to it, in order. The token
  returned by an acquire is the position of that call in the list, so every acquire
  returns a token that no earlier call has mentioned.
\<close>

definition setDirty :: "app \<Rightarrow> token \<times> app" where
  "setDirty a = (length a, a @ [SetDirty (length a)])"

text \<open>
  Modelled from the spec: \<open>disposable.dispose()\<close> on a token returned by \<open>setDirty\<close>;
  the call is recorded.
\<close>

definition dispose :: "token \<Rightarrow> app \<Rightarrow> app" where
  "dispose t a = a @ [DisposeToken t]"

fun acquired :: "app \<Rightarrow> token list" where
  "acquired [] = []"
| "acquired (SetDirty t # a) = t # acquired a"
| "acquired (DisposeToken t # a) = acquired a"

fun released :: "app \<Rightarrow> token list" where
  "released [] = []"
| "released (SetDirty t # a) = released a"
| "released (DisposeToken t # a) = t # released a"

text \<open>The tokens that hold the indicator: acquired, and never released.\<close>

definition held :: "app \<Rightarrow> token list" where
  "held a = filter (\<lambda>t. t \<notin> set (released a)) (acquired a)"

section \<open>handleContext\<close>

text \<open>
  One call of \<open>handleContext(app, context)\<close> creates one closure: the local variable
  \<open>disposable\<close> and three registrations on the context. \<open>readyPending\<close> is the
  continuation passed to \<open>context.ready.then\<close>, registered and not yet run;
  \<open>stateConnected\<close> says that \<open>onStateChanged\<close> is connected to
  \<open>context.model.stateChanged\<close>; \<open>disposedConnected\<close> says that the disposal handler is
  connected to \<open>context.disposed\<close>.
\<close>

record closure =
  disposable :: "token option"
  readyPending :: bool
  stateConnected :: bool
  disposedConnected :: bool

text \<open>Lines 314 to 325: the slot connected to \<open>context.model.stateChanged\<close>.\<close>

definition onStateChanged :: "string \<Rightarrow> jsval \<Rightarrow> closure \<times> app \<Rightarrow> closure \<times> app" where
  "onStateChanged name newValue s =
     (case s of (k, a) \<Rightarrow>
        if name = ''dirty'' then
          if newValue = JBool True then
            (if disposable k = None then
               (case setDirty a of (t, a') \<Rightarrow> (k\<lparr>disposable := Some t\<rparr>, a'))
             else (k, a))
          else
            (case disposable k of
               Some t \<Rightarrow> (k\<lparr>disposable := None\<rparr>, dispose t a)
             | None \<Rightarrow> (k, a))
        else (k, a))"

text \<open>
  Lines 326 to 331: the continuation of \<open>context.ready\<close>. Its argument is the value of
  \<open>context.model.dirty\<close> at the moment the continuation runs.
\<close>

definition onReady :: "bool \<Rightarrow> closure \<times> app \<Rightarrow> closure \<times> app" where
  "onReady dirty s =
     (case s of (k, a) \<Rightarrow>
        let k1 = k\<lparr>stateConnected := True\<rparr> in
        if dirty then (case setDirty a of (t, a') \<Rightarrow> (k1\<lparr>disposable := Some t\<rparr>, a'))
        else (k1, a))"

text \<open>Lines 332 to 336: the slot connected to \<open>context.disposed\<close>.\<close>

definition onDisposed :: "closure \<times> app \<Rightarrow> closure \<times> app" where
  "onDisposed s =
     (case s of (k, a) \<Rightarrow>
        (case disposable k of
           Some t \<Rightarrow> (k, dispose t a)
         | None \<Rightarrow> (k, a)))"

text \<open>
  The synchronous body of \<open>handleContext\<close>: \<open>disposable\<close> starts as \<open>null\<close>, the
  continuation is registered on \<open>context.ready\<close> (line 326), then the disposal handler is
  connected (line 332). No call reaches the shell.
\<close>

definition handleContext :: "app \<Rightarrow> closure \<times> app" where
  "handleContext a =
     (let k0 = \<lparr>disposable = None, readyPending = False, stateConnected = False,
                disposedConnected = False\<rparr>;
          k1 = k0\<lparr>readyPending := True\<rparr>;
          k2 = k1\<lparr>disposedConnected := True\<rparr>
      in (k2, a))"

text \<open>
  What the context can do to the closure. \<open>Ready d\<close>: the readiness promise resolves
  while \<open>context.model.dirty\<close> is \<open>d\<close>; a promise runs a continuation at most once.
  \<open>StateChanged name newValue\<close>: the model emits \<open>stateChanged\<close>; a signal calls the
  slots connected to it. \<open>Disposed\<close>: the context emits \<open>disposed\<close>.
\<close>

datatype event = Ready bool | StateChanged string jsval | Disposed

fun deliver :: "event \<Rightarrow> closure \<times> app \<Rightarrow> closure \<times> app" where
  "deliver (Ready d) (k, a) =
     (if readyPending k then onReady d (k\<lparr>readyPending := False\<rparr>, a) else (k, a))"
| "deliver (StateChanged name newValue) (k, a) =
     (if stateConnected k then onStateChanged name newValue (k, a) else (k, a))"
| "deliver Disposed (k, a) =
     (if disposedConnected k then onDisposed (k, a) else (k, a))"

definition run :: "event list \<Rightarrow> closure \<times> app \<Rightarrow> closure \<times> app" where
  "run evs s = foldl (\<lambda>s e. deliver e s) s evs"

fun is_ready :: "event \<Rightarrow> bool" where
  "is_ready (Ready d) = True"
| "is_ready (StateChanged name newValue) = False"
| "is_ready Disposed = False"

section \<open>What the tracker has observed of a context\<close>

text \<open>
  The spec's side of the dirty-tracking invariant, following the spec's words: "the
  context's last observed \<open>dirty\<close> value" and "it has not been disposed". The tracker
  observes \<open>model.dirty\<close> once when readiness resolves, and afterwards the \<open>newValue\<close>
  of every \<open>dirty\<close> notification; before readiness it observes nothing.
\<close>

record observation =
  obsReady :: bool
  lastDirty :: "jsval option"
  obsDisposed :: bool

fun observe :: "event \<Rightarrow> observation \<Rightarrow> observation" where
  "observe (Ready d) ob =
     (if obsReady ob then ob else ob\<lparr>obsReady := True, lastDirty := Some (JBool d)\<rparr>)"
| "observe (StateChanged name newValue) ob =
     (if obsReady ob \<and> name = ''dirty'' then ob\<lparr>lastDirty := Some newValue\<rparr> else ob)"
| "observe Disposed ob = ob\<lparr>obsDisposed := True\<rparr>"

definition observed :: "event list \<Rightarrow> observation" where
  "observed evs =
     foldl (\<lambda>ob e. observe e ob) \<lparr>obsReady = False, lastDirty = None, obsDisposed = False\<rparr> evs"

definition dirty_and_live :: "event list \<Rightarrow> bool" where
  "dirty_and_live evs =
     (lastDirty (observed evs) = Some (JBool True) \<and> \<not> obsDisposed (observed evs))"

text \<open>The indicator is held on behalf of the context: one of its tokens is unreleased.\<close>

definition holds :: "closure \<times> app \<Rightarrow> bool" where
  "holds s = (held (snd s) \<noteq> [])"

text \<open>Nothing is delivered after the disposal notification: it can only come last.\<close>

definition quiet_after_disposal :: "event list \<Rightarrow> bool" where
  "quiet_after_disposal evs = (Disposed \<notin> set (butlast evs))"

text \<open>
  The calls come in matched pairs: an acquire, then the release of the token it returned,
  and so on; the last acquire may still be open.
\<close>

fun matched_pairs :: "call list \<Rightarrow> bool" where
  "matched_pairs [] = True"
| "matched_pairs [SetDirty t] = True"
| "matched_pairs (SetDirty t # DisposeToken u # a) = (t = u \<and> matched_pairs a)"
| "matched_pairs (SetDirty t # SetDirty u # a) = False"
| "matched_pairs (DisposeToken t # a) = False"

text \<open>The token of the last call, when that call is an acquire.\<close>

definition open_token :: "call list \<Rightarrow> token option" where
  "open_token a =
     (if a = [] then None
      else (case last a of SetDirty t \<Rightarrow> Some t | DisposeToken t \<Rightarrow> None))"

fun is_acquire :: "call \<Rightarrow> bool" where
  "is_acquire (SetDirty t) = True"
| "is_acquire (DisposeToken t) = False"

text \<open>The acquire calls since the last release.\<close>

definition acquires_since_release :: "call list \<Rightarrow> nat" where
  "acquires_since_release a = length (takeWhile is_acquire (rev a))"

section \<open>The widget opener and the set of handled contexts\<close>

type_synonym ctx = nat

datatype error = Error string | TypeError

text \<open>
  The state that \<open>activate\<close> sets up: \<open>contexts\<close> is the \<open>WeakSet\<close> of line 81 (a
  context that can still be passed to \<open>has\<close> is still referenced, so for every such context
  the \<open>WeakSet\<close> answers as a set does); \<open>closures\<close> has one entry for each call of
  \<open>handleContext\<close>, with the context it was called for; \<open>shell\<close> is the host shell.
\<close>

record system =
  contexts :: "ctx set"
  closures :: "(ctx \<times> closure) list"
  shell :: app

definition activate :: system where
  "activate = \<lparr>contexts = {}, closures = [], shell = []\<rparr>"

text \<open>
  Lines 96 to 101 of \<open>opener.open\<close>. The argument is what
  \<open>docManager.contextForWidget(widget)\<close> returned, \<open>None\<close> when there is no context for
  the widget: \<open>WeakSet.has\<close> is then false and \<open>handleContext\<close> fails on
  \<open>context.ready\<close> before \<open>contexts.add\<close> is reached. Lines 84 to 94 act on the widget
  and the shell's main area only.
\<close>

definition opener_open :: "ctx option \<Rightarrow> system \<Rightarrow> error + system" where
  "opener_open context s =
     (case context of
        None \<Rightarrow> Inl TypeError
      | Some c \<Rightarrow>
          if c \<notin> contexts s then
            (case handleContext (shell s) of
               (k, a) \<Rightarrow>
                 Inr (s\<lparr>closures := closures s @ [(c, k)], shell := a,
                        contexts := insert c (contexts s)\<rparr>))
          else Inr s)"

text \<open>A context emits an event: every closure created for that context receives it.\<close>

fun emit :: "ctx \<Rightarrow> event \<Rightarrow> (ctx \<times> closure) list \<Rightarrow> app \<Rightarrow> (ctx \<times> closure) list \<times> app" where
  "emit c e [] a = ([], a)"
| "emit c e ((c', k) # ks) a =
     (if c' = c then
        (case deliver e (k, a) of
           (k', a') \<Rightarrow> (case emit c e ks a' of (ks', a'') \<Rightarrow> ((c', k') # ks', a'')))
      else (case emit c e ks a of (ks', a'') \<Rightarrow> ((c', k) # ks', a'')))"

datatype sys_event = Open "ctx option" | Emit ctx event

fun sys_step :: "sys_event \<Rightarrow> system \<Rightarrow> system" where
  "sys_step (Open context) s =
     (case opener_open context s of Inl err \<Rightarrow> s | Inr s' \<Rightarrow> s')"
| "sys_step (Emit c e) s =
     (case emit c e (closures s) (shell s) of (ks, a) \<Rightarrow> s\<lparr>closures := ks, shell := a\<rparr>)"

definition sys_run :: "sys_event list \<Rightarrow> system \<Rightarrow> system" where
  "sys_run evs s = foldl (\<lambda>s e. sys_step e s) s evs"

text \<open>The number of times \<open>handleContext\<close> has been called for a context.\<close>

definition handled_count :: "ctx \<Rightarrow> system \<Rightarrow> nat" where
  "handled_count c s = length (filter (\<lambda>p. fst p = c) (closures s))"

section \<open>The command docmanager:delete-file\<close>

definition CommandIDs_deleteFile :: string where
  "CommandIDs_deleteFile = ''docmanager:delete-file''"

text \<open>\<open>args[key]\<close> on the JSON object of arguments.\<close>

definition arg_value :: "(string \<rightharpoonup> jsval) \<Rightarrow> string \<Rightarrow> jsval" where
  "arg_value args key = (case args key of None \<Rightarrow> JUndefined | Some v \<Rightarrow> v)"

text \<open>
  Lines 147 to 156. \<open>docManager.deleteFile\<close> belongs to the document manager, which is
  not part of this source: it is a parameter, a function of the path and the document
  manager's state.
\<close>

definition deleteFile_execute ::
  "(jsval \<Rightarrow> 'dm \<Rightarrow> 'r \<times> 'dm) \<Rightarrow> (string \<rightharpoonup> jsval) \<Rightarrow> 'dm \<Rightarrow> (error + 'r) \<times> 'dm" where
  "deleteFile_execute deleteFile args dm =
     (let path = (if typeof (arg_value args ''path'') = ''undefined'' then JStr ''''
                  else arg_value args ''path'')
      in if \<not> truthy path then
           (let command = CommandIDs_deleteFile
            in (Inl (Error (''A non-empty path is required for '' @ command @ ''.'')), dm))
         else (case deleteFile path dm of (r, dm') \<Rightarrow> (Inr r, dm')))"

text \<open>A document manager that records the paths it is asked to delete.\<close>

definition recording_deleteFile :: "jsval \<Rightarrow> jsval list \<Rightarrow> unit \<times> jsval list" where
  "recording_deleteFile path dm = ((), dm @ [path])"

section \<open>Invariants of a closure\<close>

text \<open>
  What holds of a closure and the calls it has made after any sequence of events: the
  handlers registered by \<open>handleContext\<close> stay registered, the subscription exists
  exactly when the continuation has run, nothing happens before the continuation runs, and
  an unreleased token is the one in \<open>disposable\<close>.
\<close>

definition closure_inv :: "closure \<times> app \<Rightarrow> bool" where
  "closure_inv s =
     (case s of (k, a) \<Rightarrow>
        disposedConnected k \<and>
        stateConnected k = (\<not> readyPending k) \<and>
        (readyPending k \<longrightarrow> disposable k = None \<and> a = []) \<and>
        (\<forall>t \<in> set (released a). t < length a) \<and>
        (\<forall>t. disposable k = Some t \<longrightarrow> t < length a) \<and>
        (held a = [] \<or> (\<exists>t. disposable k = Some t \<and> held a = [t])))"

text \<open>What holds in addition as long as the context has not been disposed.\<close>

definition live_inv :: "event list \<Rightarrow> closure \<times> app \<Rightarrow> bool" where
  "live_inv evs s =
     (case s of (k, a) \<Rightarrow>
        open_token a = disposable k \<and>
        matched_pairs a \<and>
        held a = (case disposable k of None \<Rightarrow> [] | Some t \<Rightarrow> [t]) \<and>
        distinct (released a) \<and>
        acquires_since_release a = (case disposable k of None \<Rightarrow> 0 | Some t \<Rightarrow> 1) \<and>
        obsReady (observed evs) = stateConnected k \<and>
        \<not> obsDisposed (observed evs) \<and>
        (disposable k \<noteq> None) = (lastDirty (observed evs) = Some (JBool True)))"

section \<open>Basic facts\<close>

lemma run_Nil: "run [] s = s"
  by (simp add: run_def)

lemma run_snoc: "run (evs @ [e]) s = deliver e (run evs s)"
  by (simp add: run_def)

lemma run_append: "run (evs @ evs') s = run evs' (run evs s)"
  by (simp add: run_def)

lemma run_Cons: "run (e # evs) s = run evs (deliver e s)"
  by (simp add: run_def)

section \<open>The shell's call list\<close>

lemma acquired_append: "acquired (a @ b) = acquired a @ acquired b"
  by (induction a rule: acquired.induct) simp_all

lemma released_append: "released (a @ b) = released a @ released b"
  by (induction a rule: released.induct) simp_all

lemma held_snoc_SetDirty:
  "held (a @ [SetDirty t]) = held a @ (if t \<in> set (released a) then [] else [t])"
  by (simp add: held_def acquired_append released_append)

lemma held_snoc_DisposeToken: "held (a @ [DisposeToken t]) = removeAll t (held a)"
proof -
  have "filter (\<lambda>u. u \<noteq> t \<and> u \<notin> set (released a)) xs = removeAll t (filter (\<lambda>u. u \<notin> set (released a)) xs)" for xs
    by (induction xs) auto
  then show ?thesis
    by (simp add: held_def acquired_append released_append)
qed

lemma held_singleton_not_released: "held a = [t] \<Longrightarrow> t \<notin> set (released a)"
proof -
  assume "held a = [t]"
  then have "t \<in> set (held a)" by simp
  then show ?thesis by (simp add: held_def)
qed

lemma open_token_snoc_SetDirty: "open_token (a @ [SetDirty t]) = Some t"
  by (simp add: open_token_def)

lemma open_token_snoc_DisposeToken: "open_token (a @ [DisposeToken t]) = None"
  by (simp add: open_token_def)

lemma matched_pairs_snoc_SetDirty:
  "matched_pairs a \<Longrightarrow> open_token a = None \<Longrightarrow> matched_pairs (a @ [SetDirty t])"
  by (induction a rule: matched_pairs.induct) (auto simp: open_token_def split: if_splits)

lemma matched_pairs_snoc_DisposeToken:
  "matched_pairs a \<Longrightarrow> open_token a = Some t \<Longrightarrow> matched_pairs (a @ [DisposeToken t])"
  by (induction a rule: matched_pairs.induct) (auto simp: open_token_def split: if_splits)

lemma matched_pairs_prefix:
  "matched_pairs a \<Longrightarrow> length (released (take n a)) \<le> length (acquired (take n a))"
proof (induction a arbitrary: n rule: matched_pairs.induct)
  case (3 t u a)
  then show ?case
    by (cases n; simp; cases "n - 1"; simp) 
qed (auto simp: take_Cons')

lemma asr_snoc_SetDirty:
  "acquires_since_release (a @ [SetDirty t]) = Suc (acquires_since_release a)"
  by (simp add: acquires_since_release_def)

lemma asr_snoc_DisposeToken: "acquires_since_release (a @ [DisposeToken t]) = 0"
  by (simp add: acquires_since_release_def)


section \<open>The invariants hold along every sequence of events\<close>

lemma observed_Nil: "observed [] = \<lparr>obsReady = False, lastDirty = None, obsDisposed = False\<rparr>"
  by (simp add: observed_def)

lemma observed_snoc: "observed (evs @ [e]) = observe e (observed evs)"
  by (simp add: observed_def)

lemma closure_inv_init: "closure_inv (handleContext [])"
  by (simp add: closure_inv_def handleContext_def held_def)

lemma closure_inv_deliver:
  assumes "closure_inv s"
  shows "closure_inv (deliver e s)"
proof (cases s)
  case (Pair k a)
  show ?thesis
  proof (cases e)
    case (Ready d)
    with Pair assms show ?thesis
      by (auto simp: closure_inv_def onReady_def setDirty_def Let_def held_snoc_SetDirty
          released_append held_def)
  next
    case (StateChanged name newValue)
    with Pair assms show ?thesis
      by (auto simp: closure_inv_def onStateChanged_def setDirty_def dispose_def
          held_snoc_SetDirty held_snoc_DisposeToken released_append less_Suc_eq
          split: option.splits)
  next
    case Disposed
    with Pair assms show ?thesis
      by (auto simp: closure_inv_def onDisposed_def dispose_def held_snoc_DisposeToken
          released_append less_Suc_eq split: option.splits)
  qed
qed

lemma closure_inv_run: "closure_inv (run evs (handleContext []))"
  by (induction evs rule: rev_induct) (simp_all add: run_Nil run_snoc closure_inv_init closure_inv_deliver)

lemma live_inv_init: "live_inv [] (handleContext [])"
  by (simp add: live_inv_def handleContext_def held_def open_token_def
      acquires_since_release_def observed_Nil)

lemma live_inv_deliver:
  assumes "e \<noteq> Disposed" and "closure_inv s" and "live_inv evs s"
  shows "live_inv (evs @ [e]) (deliver e s)"
proof (cases s)
  case (Pair k a)
  show ?thesis
  proof (cases e)
    case (Ready d)
    with Pair assms show ?thesis
      by (auto simp: closure_inv_def live_inv_def observed_snoc onReady_def setDirty_def Let_def
          held_def open_token_def acquires_since_release_def)
  next
    case (StateChanged name newValue)
    with Pair assms show ?thesis
      by (auto simp: closure_inv_def live_inv_def observed_snoc onStateChanged_def
          setDirty_def dispose_def held_snoc_SetDirty held_snoc_DisposeToken
          released_append open_token_snoc_SetDirty open_token_snoc_DisposeToken
          matched_pairs_snoc_SetDirty matched_pairs_snoc_DisposeToken
          asr_snoc_SetDirty asr_snoc_DisposeToken
          dest: held_singleton_not_released split: option.splits)
  next
    case Disposed
    with assms show ?thesis by simp
  qed
qed

lemma live_inv_run: "Disposed \<notin> set evs \<Longrightarrow> live_inv evs (run evs (handleContext []))"
proof (induction evs rule: rev_induct)
  case Nil
  show ?case by (simp add: run_Nil live_inv_init)
next
  case (snoc e evs)
  then have "e \<noteq> Disposed" and "live_inv evs (run evs (handleContext []))"
    by auto
  then show ?case
    by (simp add: run_snoc live_inv_deliver closure_inv_run)
qed


lemma deliver_not_ready:
  "\<not> is_ready e \<Longrightarrow> deliver e (handleContext a) = handleContext a"
  by (cases e) (simp_all add: handleContext_def onDisposed_def)

lemma run_not_ready:
  "\<forall>e \<in> set evs. \<not> is_ready e \<Longrightarrow> run evs (handleContext a) = handleContext a"
  by (induction evs rule: rev_induct) (simp_all add: run_Nil run_snoc deliver_not_ready)

lemma deliver_stateConnected:
  "closure_inv s \<Longrightarrow>
   stateConnected (fst (deliver e s)) = (stateConnected (fst s) \<or> is_ready e)"
  by (cases s; cases e)
     (auto simp: closure_inv_def onReady_def onStateChanged_def onDisposed_def setDirty_def
        Let_def split: option.splits)

lemma run_stateConnected:
  "stateConnected (fst (run evs (handleContext []))) = (\<exists>e \<in> set evs. is_ready e)"
proof (induction evs rule: rev_induct)
  case Nil
  show ?case by (simp add: run_Nil handleContext_def)
next
  case (snoc e evs)
  then show ?case
    by (auto simp: run_snoc deliver_stateConnected [OF closure_inv_run])
qed

lemma deliver_Disposed_calls:
  "closure_inv (k, a) \<Longrightarrow>
   deliver Disposed (k, a) =
     (k, case disposable k of None \<Rightarrow> a | Some t \<Rightarrow> a @ [DisposeToken t])"
  by (simp add: closure_inv_def onDisposed_def dispose_def split: option.splits)

text \<open>
  Only a readiness resolution with \<open>model.dirty\<close> true and a \<open>dirty = true\<close>
  notification can acquire a token.
\<close>

lemma deliver_keeps_unheld:
  assumes "held (snd s) = []"
    and "e \<noteq> Ready True" and "e \<noteq> StateChanged ''dirty'' (JBool True)"
  shows "held (snd (deliver e s)) = []"
proof (cases s)
  case (Pair k a)
  show ?thesis
  proof (cases e)
    case (Ready d)
    with Pair assms show ?thesis
      by (simp add: onReady_def)
  next
    case (StateChanged name newValue)
    with Pair assms show ?thesis
      by (auto simp: onStateChanged_def dispose_def held_snoc_DisposeToken
          split: option.splits)
  next
    case Disposed
    with Pair assms show ?thesis
      by (auto simp: onDisposed_def dispose_def held_snoc_DisposeToken split: option.splits)
  qed
qed

lemma run_keeps_unheld:
  assumes "held (snd s) = []"
    and "\<forall>e \<in> set evs. e \<noteq> Ready True \<and> e \<noteq> StateChanged ''dirty'' (JBool True)"
  shows "held (snd (run evs s)) = []"
  using assms(2)
proof (induction evs rule: rev_induct)
  case Nil
  show ?case using assms(1) by (simp add: run_Nil)
next
  case (snoc e evs)
  then have "held (snd (run evs s)) = []"
    and "e \<noteq> Ready True" and "e \<noteq> StateChanged ''dirty'' (JBool True)"
    by simp_all
  then show ?case
    unfolding run_snoc by (rule deliver_keeps_unheld)
qed

section \<open>Claims about handleContext\<close>

text \<open>
  Claim C9. For a context whose readiness signal never resolves, whatever else is
  delivered (state changes of the model, the disposal), the closure stays exactly as
  \<open>handleContext\<close> left it: \<open>onStateChanged\<close> is never connected, no token is
  acquired, and the shell receives no call. Every event is handled without an error: the
  handlers have no failing branch.
\<close>

theorem never_ready_inert:
  assumes "\<forall>e \<in> set evs. \<not> is_ready e"
  shows "run evs (handleContext a) = handleContext a
    \<and> \<not> stateConnected (fst (run evs (handleContext a)))
    \<and> disposable (fst (run evs (handleContext a))) = None
    \<and> snd (run evs (handleContext a)) = a"
proof -
  have "run evs (handleContext a) = handleContext a"
    using assms by (rule run_not_ready)
  then show ?thesis by (simp add: handleContext_def)
qed

theorem never_ready_inert_witness:
  "run [StateChanged ''dirty'' (JBool True), Disposed, StateChanged ''dirty'' (JBool False)]
       (handleContext []) = handleContext []
   \<and> snd (run [StateChanged ''dirty'' (JBool True), Disposed,
                StateChanged ''dirty'' (JBool False)] (handleContext [])) = []"
  using never_ready_inert
    [of "[StateChanged ''dirty'' (JBool True), Disposed, StateChanged ''dirty'' (JBool False)]" "[]"]
  by (simp add: handleContext_def)

text \<open>
  Claim C2. When readiness resolves while \<open>model.dirty\<close> is true, the continuation
  connects \<open>onStateChanged\<close> and calls \<open>app.setDirty\<close> once, although no
  notification has reached the closure before (it was not connected, and the shell has
  received no call): the token is stored in \<open>disposable\<close> and holds the indicator.
\<close>

theorem ready_dirty_acquires:
  assumes "\<forall>e \<in> set evs. \<not> is_ready e"
  shows "snd (run evs (handleContext a)) = a
    \<and> snd (run (evs @ [Ready True]) (handleContext a)) = a @ [SetDirty (length a)]
    \<and> disposable (fst (run (evs @ [Ready True]) (handleContext a))) = Some (length a)
    \<and> stateConnected (fst (run (evs @ [Ready True]) (handleContext a)))
    \<and> (a = [] \<longrightarrow> holds (run (evs @ [Ready True]) (handleContext a)))"
proof -
  have before: "run evs (handleContext a) = handleContext a"
    using assms by (rule run_not_ready)
  have after: "run (evs @ [Ready True]) (handleContext a) =
      (\<lparr>disposable = Some (length a), readyPending = False, stateConnected = True,
        disposedConnected = True\<rparr>, a @ [SetDirty (length a)])"
    unfolding run_snoc before
    by (simp add: handleContext_def onReady_def setDirty_def)
  have "snd (run evs (handleContext a)) = a"
    unfolding before by (simp add: handleContext_def)
  moreover have "a = [] \<longrightarrow> holds (run (evs @ [Ready True]) (handleContext a))"
    unfolding after by (simp add: holds_def held_def)
  ultimately show ?thesis
    unfolding after by simp
qed

theorem ready_dirty_acquires_witness:
  "snd (run [StateChanged ''dirty'' (JBool True), Ready True] (handleContext [])) = [SetDirty 0]
   \<and> holds (run [StateChanged ''dirty'' (JBool True), Ready True] (handleContext []))"
  using ready_dirty_acquires [of "[StateChanged ''dirty'' (JBool True)]" "[]"]
  by simp


text \<open>
  Claim C1, as stated, fails: the disposal handler neither clears \<open>disposable\<close> nor
  disconnects \<open>onStateChanged\<close>, so a \<open>dirty\<close> notification delivered after the
  disposal of a clean context acquires a token for a disposed context.
\<close>

theorem held_iff_dirty_counterexample:
  "holds (run [Ready False, Disposed, StateChanged ''dirty'' (JBool True)] (handleContext []))
   \<and> \<not> dirty_and_live [Ready False, Disposed, StateChanged ''dirty'' (JBool True)]"
  by (simp add: run_def handleContext_def onReady_def onDisposed_def onStateChanged_def
      setDirty_def holds_def held_def dirty_and_live_def observed_def)

text \<open>
  Claim C1, amended. At any point of any sequence of events in which nothing is delivered
  after the disposal notification, the indicator is held on behalf of the context if and
  only if the last observed \<open>dirty\<close> value is \<open>true\<close> and the context has not been
  disposed.
\<close>

theorem held_iff_dirty_and_live:
  assumes "quiet_after_disposal evs"
  shows "holds (run evs (handleContext [])) = dirty_and_live evs"
proof (cases "Disposed \<in> set evs")
  case False
  then have "live_inv evs (run evs (handleContext []))"
    by (simp add: live_inv_run)
  then show ?thesis
    by (cases "run evs (handleContext [])")
       (auto simp: live_inv_def holds_def dirty_and_live_def split: option.splits)
next
  case True
  then have "evs \<noteq> []" by auto
  then obtain evs' e where evs: "evs = evs' @ [e]"
    by (metis rev_exhaust)
  with assms have live: "Disposed \<notin> set evs'"
    by (simp add: quiet_after_disposal_def)
  with True evs have e: "e = Disposed" by auto
  obtain k a where s: "run evs' (handleContext []) = (k, a)"
    by (cases "run evs' (handleContext [])")
  have "closure_inv (k, a)"
    using closure_inv_run [of evs'] s by simp
  then have step: "deliver Disposed (k, a) =
      (k, case disposable k of None \<Rightarrow> a | Some t \<Rightarrow> a @ [DisposeToken t])"
    by (rule deliver_Disposed_calls)
  have "live_inv evs' (k, a)"
    using live_inv_run [OF live] s by simp
  then have "held (snd (run evs (handleContext []))) = []"
    unfolding evs e run_snoc s step
    by (auto simp: live_inv_def held_snoc_DisposeToken split: option.splits)
  moreover have "obsDisposed (observed evs)"
    unfolding evs e by (simp add: observed_snoc)
  ultimately show ?thesis
    by (simp add: holds_def dirty_and_live_def)
qed

theorem held_iff_dirty_and_live_witness:
  "quiet_after_disposal [Ready False, StateChanged ''dirty'' (JBool True)]
   \<and> dirty_and_live [Ready False, StateChanged ''dirty'' (JBool True)]
   \<and> holds (run [Ready False, StateChanged ''dirty'' (JBool True)] (handleContext []))"
proof -
  have q: "quiet_after_disposal [Ready False, StateChanged ''dirty'' (JBool True)]"
    by (simp add: quiet_after_disposal_def)
  have d: "dirty_and_live [Ready False, StateChanged ''dirty'' (JBool True)]"
    by (simp add: dirty_and_live_def observed_def)
  show ?thesis
    using q d held_iff_dirty_and_live [OF q] by simp
qed

text \<open>
  Claim C3, as stated, fails: after the disposal of a context that holds a token,
  \<open>onStateChanged\<close> is still connected and \<open>disposable\<close> still refers to the released
  token, so a later \<open>dirty\<close> notification is not ignored: it calls \<open>dispose\<close> again.
\<close>

theorem disposal_then_notification_counterexample:
  "holds (run [Ready True] (handleContext []))
   \<and> snd (run [Ready True, Disposed] (handleContext [])) = [SetDirty 0, DisposeToken 0]
   \<and> snd (run [Ready True, Disposed, StateChanged ''dirty'' (JBool False)] (handleContext []))
       = [SetDirty 0, DisposeToken 0, DisposeToken 0]"
  by (simp add: run_def handleContext_def onReady_def onDisposed_def onStateChanged_def
      setDirty_def dispose_def holds_def held_def)

text \<open>
  Claim C3, amended. For every context that currently holds a token, delivering its
  disposal notification results in exactly one call to the shell, the release of the held
  token, after which no token is held on its behalf.
\<close>

theorem disposal_releases_held_token:
  assumes "holds (run evs (handleContext []))"
  shows "\<exists>t. held (snd (run evs (handleContext []))) = [t]
    \<and> disposable (fst (run evs (handleContext []))) = Some t
    \<and> snd (run (evs @ [Disposed]) (handleContext []))
        = snd (run evs (handleContext [])) @ [DisposeToken t]
    \<and> \<not> holds (run (evs @ [Disposed]) (handleContext []))"
proof -
  obtain k a where s: "run evs (handleContext []) = (k, a)"
    by (cases "run evs (handleContext [])")
  have inv: "closure_inv (k, a)"
    using closure_inv_run [of evs] s by simp
  from assms s have "held a \<noteq> []"
    by (simp add: holds_def)
  with inv obtain t where t: "disposable k = Some t" "held a = [t]"
    by (auto simp: closure_inv_def)
  have "deliver Disposed (k, a) = (k, a @ [DisposeToken t])"
    unfolding deliver_Disposed_calls [OF inv] using t by simp
  then show ?thesis
    unfolding run_snoc s using t
    by (simp add: holds_def held_snoc_DisposeToken)
qed

theorem disposal_releases_held_token_witness:
  "holds (run [Ready True] (handleContext []))
   \<and> snd (run ([Ready True] @ [Disposed]) (handleContext [])) = [SetDirty 0, DisposeToken 0]
   \<and> \<not> holds (run ([Ready True] @ [Disposed]) (handleContext []))"
proof -
  have h: "holds (run [Ready True] (handleContext []))"
    by (simp add: run_def handleContext_def onReady_def setDirty_def holds_def held_def)
  have "snd (run [Ready True] (handleContext [])) = [SetDirty 0]"
    by (simp add: run_def handleContext_def onReady_def setDirty_def)
  then show ?thesis
    using h disposal_releases_held_token [OF h] by (auto simp: held_def)
qed


text \<open>
  Claim C4, as stated, fails: the disposal handler does not disconnect
  \<open>onStateChanged\<close>, and nothing else in \<open>handleContext\<close> does. After readiness
  and disposal the closure still has its subscription, and a \<open>dirty = true\<close>
  notification delivered then is handled: it acquires a token, which the disposed
  context holds.
\<close>

theorem subscription_cancelled_counterexample:
  "stateConnected (fst (run [Ready False, Disposed] (handleContext [])))
   \<and> snd (run [Ready False, Disposed, StateChanged ''dirty'' (JBool True)] (handleContext []))
       = [SetDirty 0]
   \<and> holds (run [Ready False, Disposed, StateChanged ''dirty'' (JBool True)]
        (handleContext []))"
  by (simp add: run_def handleContext_def onReady_def onDisposed_def onStateChanged_def
      setDirty_def holds_def held_def)

text \<open>
  Claim C4, amended. Once the disposal notification has been delivered the context
  holds no token, and it holds none afterwards for as long as neither a readiness
  resolution with \<open>model.dirty\<close> true nor a \<open>dirty = true\<close> notification is delivered
  to it. The tracker does not cancel its \<open>stateChanged\<close> subscription on disposal:
  the disposal handler leaves the closure, its subscription included, as it was.
\<close>

theorem after_disposal_no_token_subscription_kept:
  assumes "\<forall>e \<in> set evs'. e \<noteq> Ready True \<and> e \<noteq> StateChanged ''dirty'' (JBool True)"
  shows "\<not> holds (run (evs @ [Disposed] @ evs') (handleContext []))
    \<and> fst (run (evs @ [Disposed]) (handleContext [])) = fst (run evs (handleContext []))"
proof -
  obtain k a where s: "run evs (handleContext []) = (k, a)"
    by (cases "run evs (handleContext [])")
  have inv: "closure_inv (k, a)"
    using closure_inv_run [of evs] s by simp
  then have "held a = [] \<or> (\<exists>t. disposable k = Some t \<and> held a = [t])"
    by (simp add: closure_inv_def)
  then have "held (snd (deliver Disposed (k, a))) = []"
    unfolding deliver_Disposed_calls [OF inv]
    by (auto simp: held_snoc_DisposeToken split: option.splits)
  then have "held (snd (run (evs @ [Disposed]) (handleContext []))) = []"
    unfolding run_snoc s .
  then have "held (snd (run evs' (run (evs @ [Disposed]) (handleContext [])))) = []"
    using assms by (rule run_keeps_unheld)
  then have "\<not> holds (run (evs @ [Disposed] @ evs') (handleContext []))"
    using run_append [of "evs @ [Disposed]" evs' "handleContext []"]
    by (simp add: holds_def)
  moreover have "fst (run (evs @ [Disposed]) (handleContext [])) = fst (run evs (handleContext []))"
    unfolding run_snoc s deliver_Disposed_calls [OF inv] by simp
  ultimately show ?thesis
    by simp
qed

theorem after_disposal_no_token_subscription_kept_witness:
  "\<not> holds (run ([Ready True] @ [Disposed] @ [StateChanged ''dirty'' (JBool False)])
        (handleContext []))
   \<and> fst (run ([Ready True] @ [Disposed]) (handleContext []))
       = fst (run [Ready True] (handleContext []))"
proof -
  have quiet: "\<forall>e \<in> set [StateChanged ''dirty'' (JBool False)].
      e \<noteq> Ready True \<and> e \<noteq> StateChanged ''dirty'' (JBool True)"
    by simp
  show ?thesis
    using after_disposal_no_token_subscription_kept [OF quiet, of "[Ready True]"]
    by blast
qed

text \<open>
  Claim C5. For a context that is ready and not disposed, two consecutive \<open>dirty = true\<close>
  notifications leave exactly one acquire call since the last release and exactly one
  token held. The first of them calls \<open>setDirty\<close> only when no token is held; the second
  finds the token and changes nothing: no call, no error.
\<close>

theorem consecutive_dirty_acquire_once:
  assumes "\<exists>e \<in> set evs. is_ready e" and "Disposed \<notin> set evs"
  shows "run (evs @ [StateChanged ''dirty'' (JBool True), StateChanged ''dirty'' (JBool True)])
           (handleContext [])
         = run (evs @ [StateChanged ''dirty'' (JBool True)]) (handleContext [])
    \<and> snd (run (evs @ [StateChanged ''dirty'' (JBool True)]) (handleContext []))
        = snd (run evs (handleContext []))
          @ (if holds (run evs (handleContext [])) then []
             else [SetDirty (length (snd (run evs (handleContext []))))])
    \<and> acquires_since_release
         (snd (run (evs @ [StateChanged ''dirty'' (JBool True),
                           StateChanged ''dirty'' (JBool True)]) (handleContext []))) = 1
    \<and> length (held
         (snd (run (evs @ [StateChanged ''dirty'' (JBool True),
                           StateChanged ''dirty'' (JBool True)]) (handleContext [])))) = 1"
proof -
  let ?T = "StateChanged ''dirty'' (JBool True)"
  obtain k a where s: "run evs (handleContext []) = (k, a)"
    by (cases "run evs (handleContext [])")
  obtain k1 a1 where s1: "run (evs @ [?T]) (handleContext []) = (k1, a1)"
    by (cases "run (evs @ [?T]) (handleContext [])")
  have conn: "stateConnected k"
    using run_stateConnected [of evs] assms(1) s by simp
  have conn1: "stateConnected k1"
    using run_stateConnected [of "evs @ [?T]"] assms(1) s1 by auto
  have live: "live_inv evs (k, a)"
    using live_inv_run [OF assms(2)] s by simp
  have "Disposed \<notin> set (evs @ [?T])"
    using assms(2) by simp
  then have live1: "live_inv (evs @ [?T]) (k1, a1)"
    using live_inv_run [of "evs @ [?T]"] s1 by simp
  have "obsReady (observed evs)"
    using live conn by (simp add: live_inv_def)
  then have "lastDirty (observed (evs @ [?T])) = Some (JBool True)"
    by (simp add: observed_snoc)
  with live1 obtain t where t: "disposable k1 = Some t"
    by (auto simp: live_inv_def)
  have second: "deliver ?T (k1, a1) = (k1, a1)"
    using conn1 t by (simp add: onStateChanged_def)
  have first: "a1 = a @ (if held a \<noteq> [] then [] else [SetDirty (length a)])"
  proof -
    have "(k1, a1) = deliver ?T (k, a)"
      using s s1 by (simp add: run_snoc)
    with conn live show ?thesis
      by (auto simp: onStateChanged_def setDirty_def live_inv_def split: option.splits)
  qed
  have "run (evs @ [?T, ?T]) (handleContext []) = deliver ?T (run (evs @ [?T]) (handleContext []))"
    using run_snoc [of "evs @ [?T]" ?T] by simp
  then have twice: "run (evs @ [?T, ?T]) (handleContext []) = (k1, a1)"
    using s1 second by simp
  have "acquires_since_release a1 = 1" and "length (held a1) = 1"
    using live1 t by (simp_all add: live_inv_def)
  then show ?thesis
    unfolding twice s1 s using first by (simp add: holds_def)
qed

theorem consecutive_dirty_acquire_once_witness:
  "snd (run ([Ready False] @ [StateChanged ''dirty'' (JBool True),
                              StateChanged ''dirty'' (JBool True)]) (handleContext []))
     = [SetDirty 0]
   \<and> acquires_since_release
        (snd (run ([Ready False] @ [StateChanged ''dirty'' (JBool True),
                                    StateChanged ''dirty'' (JBool True)]) (handleContext []))) = 1"
proof -
  have r: "\<exists>e \<in> set [Ready False]. is_ready e" by simp
  have d: "Disposed \<notin> set [Ready False]" by simp
  note once = consecutive_dirty_acquire_once [OF r d]
  have same: "run ([Ready False] @ [StateChanged ''dirty'' (JBool True),
        StateChanged ''dirty'' (JBool True)]) (handleContext [])
      = run ([Ready False] @ [StateChanged ''dirty'' (JBool True)]) (handleContext [])"
    using once by (rule conjunct1)
  have calls: "snd (run ([Ready False] @ [StateChanged ''dirty'' (JBool True)])
      (handleContext [])) = [SetDirty 0]"
    by (simp add: run_def handleContext_def onReady_def onStateChanged_def setDirty_def)
  have "acquires_since_release
      (snd (run ([Ready False] @ [StateChanged ''dirty'' (JBool True),
        StateChanged ''dirty'' (JBool True)]) (handleContext []))) = 1"
    using once by (elim conjE)
  then show ?thesis
    unfolding same calls by simp
qed


text \<open>
  Claim C6. For every sequence of events in which nothing follows the disposal, and so
  for every sequence of \<open>dirty = true\<close> and \<open>dirty = false\<close> notifications delivered
  to a context that is still tracked, the calls made to the shell are matched pairs of an
  acquire and the release of its token, no prefix of the calls has more releases than
  acquires, and no token is released twice.
\<close>

theorem acquire_release_matched:
  assumes "quiet_after_disposal evs"
  shows "matched_pairs (snd (run evs (handleContext [])))
    \<and> (\<forall>n. length (released (take n (snd (run evs (handleContext [])))))
            \<le> length (acquired (take n (snd (run evs (handleContext []))))))
    \<and> distinct (released (snd (run evs (handleContext []))))"
proof -
  have "matched_pairs (snd (run evs (handleContext [])))
      \<and> distinct (released (snd (run evs (handleContext []))))"
  proof (cases "Disposed \<in> set evs")
    case False
    then have "live_inv evs (run evs (handleContext []))"
      by (simp add: live_inv_run)
    then show ?thesis
      by (cases "run evs (handleContext [])") (simp add: live_inv_def)
  next
    case True
    then have "evs \<noteq> []" by auto
    then obtain evs' e where evs: "evs = evs' @ [e]"
      by (metis rev_exhaust)
    with assms have live: "Disposed \<notin> set evs'"
      by (simp add: quiet_after_disposal_def)
    with True evs have e: "e = Disposed" by auto
    obtain k a where s: "run evs' (handleContext []) = (k, a)"
      by (cases "run evs' (handleContext [])")
    have "closure_inv (k, a)"
      using closure_inv_run [of evs'] s by simp
    then have step: "deliver Disposed (k, a) =
        (k, case disposable k of None \<Rightarrow> a | Some t \<Rightarrow> a @ [DisposeToken t])"
      by (rule deliver_Disposed_calls)
    have "live_inv evs' (k, a)"
      using live_inv_run [OF live] s by simp
    then show ?thesis
      unfolding evs e run_snoc s step
      by (auto simp: live_inv_def matched_pairs_snoc_DisposeToken released_append
          dest: held_singleton_not_released split: option.splits)
  qed
  then show ?thesis
    by (simp add: matched_pairs_prefix)
qed

theorem acquire_release_matched_witness:
  "quiet_after_disposal
     [Ready False, StateChanged ''dirty'' (JBool True), StateChanged ''dirty'' (JBool False),
      StateChanged ''dirty'' (JBool True), StateChanged ''dirty'' (JBool False)]
   \<and> matched_pairs (snd (run
     [Ready False, StateChanged ''dirty'' (JBool True), StateChanged ''dirty'' (JBool False),
      StateChanged ''dirty'' (JBool True), StateChanged ''dirty'' (JBool False)]
     (handleContext [])))
   \<and> distinct (released (snd (run
     [Ready False, StateChanged ''dirty'' (JBool True), StateChanged ''dirty'' (JBool False),
      StateChanged ''dirty'' (JBool True), StateChanged ''dirty'' (JBool False)]
     (handleContext []))))"
proof -
  have q: "quiet_after_disposal
     [Ready False, StateChanged ''dirty'' (JBool True), StateChanged ''dirty'' (JBool False),
      StateChanged ''dirty'' (JBool True), StateChanged ''dirty'' (JBool False)]"
    by (simp add: quiet_after_disposal_def)
  show ?thesis
    using q acquire_release_matched [OF q] by blast
qed

text \<open>
  Claim C8, as stated, fails: a context disposed before it is ready is not forgotten.
  The continuation registered on \<open>context.ready\<close> is still pending after the disposal,
  and when readiness then resolves with \<open>model.dirty\<close> true it calls \<open>setDirty\<close>: a
  token is acquired and held for a disposed context.
\<close>

theorem disposed_before_ready_counterexample:
  "readyPending (fst (run [Disposed] (handleContext [])))
   \<and> snd (run [Disposed, Ready True] (handleContext [])) = [SetDirty 0]
   \<and> holds (run [Disposed, Ready True] (handleContext []))"
  by (simp add: run_def handleContext_def onReady_def onDisposed_def setDirty_def
      holds_def held_def)

text \<open>
  Claim C8, amended. \<open>handleContext\<close> registers the readiness continuation and the
  disposal handler in the same synchronous call, so the disposal handler is connected
  while the continuation is still pending. For a context disposed before it is ready the
  handler finds no token: no call reaches the shell and no token is held, at the disposal
  and for as long afterwards as readiness does not resolve.
\<close>

theorem disposed_before_ready_inert:
  assumes "\<forall>e \<in> set evs. \<not> is_ready e" and "\<forall>e \<in> set evs'. \<not> is_ready e"
  shows "disposedConnected (fst (handleContext a))
    \<and> readyPending (fst (handleContext a))
    \<and> run (evs @ [Disposed]) (handleContext a) = handleContext a
    \<and> snd (run (evs @ [Disposed] @ evs') (handleContext a)) = a
    \<and> disposable (fst (run (evs @ [Disposed] @ evs') (handleContext a))) = None
    \<and> \<not> holds (run (evs @ [Disposed] @ evs') (handleContext []))"
proof -
  have "\<forall>e \<in> set (evs @ [Disposed]). \<not> is_ready e"
    using assms(1) by simp
  then have one: "run (evs @ [Disposed]) (handleContext a) = handleContext a"
    by (rule run_not_ready)
  have "\<forall>e \<in> set (evs @ [Disposed] @ evs'). \<not> is_ready e"
    using assms by auto
  then have two: "run (evs @ [Disposed] @ evs') (handleContext b) = handleContext b" for b
    by (rule run_not_ready)
  show ?thesis
    unfolding one two by (simp add: handleContext_def holds_def held_def)
qed

theorem disposed_before_ready_inert_witness:
  "run ([StateChanged ''dirty'' (JBool True)] @ [Disposed]) (handleContext []) = handleContext []
   \<and> snd (run ([StateChanged ''dirty'' (JBool True)] @ [Disposed]
               @ [StateChanged ''dirty'' (JBool True)]) (handleContext [])) = []"
proof -
  have a: "\<forall>e \<in> set [StateChanged ''dirty'' (JBool True)]. \<not> is_ready e" by simp
  show ?thesis
    using disposed_before_ready_inert [OF a a, of "[]"] by blast
qed


section \<open>Claims about the set of handled contexts\<close>

lemma sys_run_Nil: "sys_run [] s = s"
  by (simp add: sys_run_def)

lemma sys_run_snoc: "sys_run (evs @ [e]) s = sys_step e (sys_run evs s)"
  by (simp add: sys_run_def)

lemma sys_run_append: "sys_run (evs @ evs') s = sys_run evs' (sys_run evs s)"
  by (simp add: sys_run_def)

lemma emit_keeps_contexts: "map fst (fst (emit c e ks a)) = map fst ks"
  by (induction ks arbitrary: a) (auto simp: case_prod_beta)

lemma sys_step_contexts: "contexts s \<subseteq> contexts (sys_step e s)"
  by (cases e) (auto simp: opener_open_def handleContext_def split: option.splits prod.splits)

lemma sys_run_contexts: "contexts s \<subseteq> contexts (sys_run evs s)"
proof (induction evs rule: rev_induct)
  case Nil
  show ?case by (simp add: sys_run_Nil)
next
  case (snoc e evs)
  then show ?case
    using sys_step_contexts [of "sys_run evs s" e] by (auto simp: sys_run_snoc)
qed

lemma sys_step_closures:
  assumes "distinct (map fst (closures s))" and "set (map fst (closures s)) = contexts s"
  shows "distinct (map fst (closures (sys_step e s)))
    \<and> set (map fst (closures (sys_step e s))) = contexts (sys_step e s)"
proof (cases e)
  case (Open opened)
  with assms show ?thesis
    by (auto simp: opener_open_def handleContext_def split: option.splits)
next
  case (Emit c ev)
  have cl: "closures (sys_step e s) = fst (emit c ev (closures s) (shell s))"
    using Emit by (simp add: case_prod_beta)
  have ct: "contexts (sys_step e s) = contexts s"
    using Emit by (simp add: case_prod_beta)
  show ?thesis
    using assms by (simp only: cl ct emit_keeps_contexts)
qed

lemma sys_run_closures:
  "distinct (map fst (closures (sys_run evs activate)))
   \<and> set (map fst (closures (sys_run evs activate))) = contexts (sys_run evs activate)"
proof (induction evs rule: rev_induct)
  case Nil
  show ?case by (simp add: sys_run_Nil activate_def)
next
  case (snoc e evs)
  then have "distinct (map fst (closures (sys_run evs activate)))"
    and "set (map fst (closures (sys_run evs activate))) = contexts (sys_run evs activate)"
    by blast+
  then show ?case
    unfolding sys_run_snoc by (rule sys_step_closures)
qed

text \<open>
  A system in which one context is opened and then emits its events is the closure of
  \<open>handleContext\<close> run on these events with a shell of its own.
\<close>

lemma single_context_system:
  "sys_run (Open (Some c) # map (Emit c) evs) activate =
     \<lparr>contexts = {c}, closures = [(c, fst (run evs (handleContext [])))],
      shell = snd (run evs (handleContext []))\<rparr>"
proof (induction evs rule: rev_induct)
  case Nil
  show ?case
    by (simp add: sys_run_def run_def activate_def opener_open_def handleContext_def)
next
  case (snoc e evs)
  have "sys_run (Open (Some c) # map (Emit c) (evs @ [e])) activate
      = sys_step (Emit c e) (sys_run (Open (Some c) # map (Emit c) evs) activate)"
    using sys_run_snoc [of "Open (Some c) # map (Emit c) evs" "Emit c e" activate] by simp
  then show ?case
    unfolding snoc.IH by (simp add: run_snoc case_prod_beta)
qed

lemma count_distinct_keys:
  "distinct (map fst ks) \<Longrightarrow>
   length (filter (\<lambda>p. fst p = c) ks) = (if c \<in> set (map fst ks) then 1 else 0)"
  by (induction ks) (auto simp: image_iff)

text \<open>
  Claim C7, as stated, fails: nothing removes a context from \<open>contexts\<close>. After its
  disposal a context is still in the set.
\<close>

theorem disposed_context_removed_counterexample:
  "(1::nat) \<in> contexts (sys_run [Open (Some 1), Emit 1 Disposed] activate)"
  by (simp add: sys_run_def activate_def opener_open_def handleContext_def onDisposed_def)

text \<open>
  Claim C7, amended. \<open>handleContext\<close> is called at most once for each context, and
  exactly for the contexts in \<open>contexts\<close>: opening a widget for a context that is already
  in the set does not call it again. A context is never removed from the set, whatever
  happens afterwards (its disposal included), and so is never added or handled again.
\<close>

theorem handled_at_most_once:
  "handled_count c (sys_run evs activate) \<le> 1
   \<and> (handled_count c (sys_run evs activate) = 1) = (c \<in> contexts (sys_run evs activate))
   \<and> (c \<in> contexts (sys_run evs activate) \<longrightarrow>
        sys_step (Open (Some c)) (sys_run evs activate) = sys_run evs activate)
   \<and> contexts (sys_run evs activate) \<subseteq> contexts (sys_run (evs @ evs') activate)"
proof -
  have "distinct (map fst (closures (sys_run evs activate)))"
    and keys: "set (map fst (closures (sys_run evs activate))) = contexts (sys_run evs activate)"
    using sys_run_closures [of evs] by simp_all
  then have count: "handled_count c (sys_run evs activate)
      = (if c \<in> contexts (sys_run evs activate) then 1 else 0)"
    unfolding handled_count_def by (simp only: count_distinct_keys)
  have again: "c \<in> contexts (sys_run evs activate) \<longrightarrow>
      sys_step (Open (Some c)) (sys_run evs activate) = sys_run evs activate"
    by (simp add: opener_open_def)
  have "contexts (sys_run evs activate) \<subseteq> contexts (sys_run (evs @ evs') activate)"
    unfolding sys_run_append by (rule sys_run_contexts)
  with count again show ?thesis
    by simp
qed

theorem handled_at_most_once_witness:
  "handled_count 1 (sys_run [Open (Some 1), Emit 1 Disposed, Open (Some 1)] activate) = 1
   \<and> (1::nat) \<in> contexts (sys_run [Open (Some 1), Emit 1 Disposed, Open (Some 1)] activate)"
proof -
  have "(1::nat) \<in> contexts (sys_run [Open (Some 1), Emit 1 Disposed, Open (Some 1)] activate)"
    by (simp add: sys_run_def activate_def opener_open_def handleContext_def onDisposed_def)
  then show ?thesis
    using handled_at_most_once [of 1 "[Open (Some 1), Emit 1 Disposed, Open (Some 1)]" "[]"]
    by simp
qed

section \<open>Claims about the command docmanager:delete-file\<close>

text \<open>
  Claim C10, as stated, fails: the test is \<open>!path\<close>, so a path that is present and is
  not the empty string, but is falsy (here \<open>null\<close>), also makes the command throw, and
  \<open>deleteFile\<close> is not called.
\<close>

theorem deleteFile_null_path_counterexample:
  "deleteFile_execute recording_deleteFile [''path'' \<mapsto> JNull] []
     = (Inl (Error ''A non-empty path is required for docmanager:delete-file.''), [])"
  by (simp add: deleteFile_execute_def arg_value_def CommandIDs_deleteFile_def)

text \<open>
  Claim C10, amended. If the path argument is missing or falsy (the empty string,
  \<open>null\<close>, \<open>false\<close> or \<open>0\<close>) the command throws its error and \<open>docManager.deleteFile\<close>
  is not called: the document manager is left as it was. Otherwise the command returns
  the result of \<open>docManager.deleteFile(path)\<close>.
\<close>

theorem deleteFile_execute_spec:
  "deleteFile_execute deleteFile args dm =
     (if args ''path'' \<in> {None, Some JUndefined, Some JNull, Some (JBool False),
                            Some (JNum 0), Some (JStr [])}
      then (Inl (Error ''A non-empty path is required for docmanager:delete-file.''), dm)
      else (case deleteFile (arg_value args ''path'') dm of (r, dm') \<Rightarrow> (Inr r, dm')))"
proof (cases "args ''path''")
  case None
  then show ?thesis
    by (simp add: deleteFile_execute_def arg_value_def CommandIDs_deleteFile_def)
next
  case (Some v)
  then show ?thesis
    by (cases v; cases "typeof v = ''undefined''")
       (auto simp: deleteFile_execute_def arg_value_def CommandIDs_deleteFile_def)
qed

theorem deleteFile_execute_spec_witness:
  "deleteFile_execute recording_deleteFile [''path'' \<mapsto> JStr ''a.txt''] []
     = (Inr (), [JStr ''a.txt''])
   \<and> deleteFile_execute recording_deleteFile Map.empty []
     = (Inl (Error ''A non-empty path is required for docmanager:delete-file.''), [])"
  using deleteFile_execute_spec [of recording_deleteFile "[''path'' \<mapsto> JStr ''a.txt'']" "[]"]
    deleteFile_execute_spec [of recording_deleteFile Map.empty "[]"]
  by (simp add: recording_deleteFile_def arg_value_def)

end
